theory Spec2Isabelle
  imports Main "HOL-Library.Multiset"
begin

section \<open>Instants\<close>

text \<open>
  A Go \<^verbatim>\<open>time.Time\<close> is an absolute instant together with a location. The methods
  \<^verbatim>\<open>Equal\<close>, \<^verbatim>\<open>After\<close> and \<^verbatim>\<open>Before\<close> compare the instants only; the location is what a
  cron library reads the wall clock in.
\<close>

record Time =
  unixNano :: int
  location :: string

definition Equal :: "Time \<Rightarrow> Time \<Rightarrow> bool" where
  "Equal t u = (unixNano t = unixNano u)"

definition After :: "Time \<Rightarrow> Time \<Rightarrow> bool" where
  "After t u = (unixNano t > unixNano u)"

definition Before :: "Time \<Rightarrow> Time \<Rightarrow> bool" where
  "Before t u = (unixNano t < unixNano u)"

section \<open>The cron library\<close>

text \<open>
  The matcher uses three functions of the package \<^verbatim>\<open>gronx\<close>, which is not part of the
  repository: \<^verbatim>\<open>IsValid(expr)\<close>, \<^verbatim>\<open>PrevTickBefore(expr, ref, inclRefTime)\<close> and
  \<^verbatim>\<open>NextTickAfter(expr, ref, inclRefTime)\<close>. They are parameters of the model; the two
  tick functions return an error (\<open>Inl\<close>, with its message) or an instant (\<open>Inr\<close>).
\<close>

record gronx =
  IsValid :: "string \<Rightarrow> bool"
  PrevTickBefore :: "string \<Rightarrow> Time \<Rightarrow> bool \<Rightarrow> string + Time"
  NextTickAfter :: "string \<Rightarrow> Time \<Rightarrow> bool \<Rightarrow> string + Time"

section \<open>The logger\<close>

text \<open>
  The \<^verbatim>\<open>zap\<close> logger is modelled by the sequence of events written to it, oldest first.
  \<^verbatim>\<open>Provision\<close> installs the logger of the context; a matcher is queried only after that.
\<close>

datatype level = DebugLevel | InfoLevel | ErrorLevel

datatype field =
  ZapString string string
| ZapTime string Time
| ZapError string

datatype entry = Entry level string "field list"

section \<open>The matcher\<close>

record CronMatcher =
  EnableAt :: "string list"
  DisableAt :: "string list"
  logger :: "entry list"

definition log :: "level \<Rightarrow> string \<Rightarrow> field list \<Rightarrow> CronMatcher \<Rightarrow> CronMatcher" where
  "log lvl msg fs cm = cm\<lparr>logger := logger cm @ [Entry lvl msg fs]\<rparr>"

subsection \<open>Errors\<close>

text \<open>
  Every error the module returns is built by \<^verbatim>\<open>fmt.Errorf\<close> or by the dispenser's
  \<^verbatim>\<open>Err\<close>. A value of \<open>error\<close> keeps the arguments of the format; \<open>error_message\<close>
  renders the text.
\<close>

datatype error =
  NoCronExpression
| CountMismatch
| InvalidEnableAt nat string
| InvalidDisableAt nat string
| DispenserErr string

definition digit :: "nat \<Rightarrow> char" where
  "digit d = ''0123456789'' ! d"

function itoa :: "nat \<Rightarrow> string" where
  "itoa n = (if n < 10 then [digit n] else itoa (n div 10) @ [digit (n mod 10)])"
  by pat_completeness auto
termination
  by (relation "measure id") auto

declare itoa.simps [simp del]

definition apostrophe :: char where
  "apostrophe = CHR 0x27"

definition quoted :: "string \<Rightarrow> string" where
  "quoted s = [apostrophe] @ s @ [apostrophe]"

fun error_message :: "error \<Rightarrow> string" where
  "error_message NoCronExpression =
     ''both '' @ quoted ''enable_at'' @ '' and '' @ quoted ''disable_at'' @
     '' must contain at least one cron expression''"
| "error_message CountMismatch =
     quoted ''enable_at'' @ '' and '' @ quoted ''disable_at'' @
     '' must have the same number of cron expressions''"
| "error_message (InvalidEnableAt i enableAt) =
     ''invalid enable_at cron format at index '' @ itoa i @ '': '' @ quoted enableAt"
| "error_message (InvalidDisableAt i disableAt) =
     ''invalid disable_at cron format at index '' @ itoa i @ '': '' @ quoted disableAt"
| "error_message (DispenserErr msg) = msg"

subsection \<open>Provision\<close>

text \<open>
  \<^verbatim>\<open>Provision\<close> takes the logger of the context, stores it, checks the two slices and
  logs one event per configured pair. It returns the error (if any) and the matcher.
\<close>

definition configured :: "CronMatcher \<Rightarrow> nat \<Rightarrow> entry" where
  "configured cm i =
     Entry InfoLevel
       (''CronMatcher configured (set '' @ itoa (i + 1) @ '', OR'' @ [apostrophe] @
        ''ed together)'')
       [ZapString ''EnableAt'' (EnableAt cm ! i), ZapString ''DisableAt'' (DisableAt cm ! i)]"

definition Provision :: "entry list \<Rightarrow> CronMatcher \<Rightarrow> error option \<times> CronMatcher" where
  "Provision ctx_logger cm0 =
     (let cm = cm0\<lparr>logger := ctx_logger\<rparr> in
      if length (EnableAt cm) = 0 \<or> length (DisableAt cm) = 0 then
        (Some NoCronExpression, cm)
      else if length (EnableAt cm) \<noteq> length (DisableAt cm) then
        (Some CountMismatch, cm)
      else
        (None, cm\<lparr>logger := logger cm @ map (configured cm) [0..<length (EnableAt cm)]\<rparr>))"

subsection \<open>Validate\<close>

text \<open>
  Each of the two loops of \<^verbatim>\<open>Validate\<close> walks a slice with its index and stops at the
  first expression that \<^verbatim>\<open>gronx.IsValid\<close> rejects.
\<close>

fun first_invalid :: "(string \<Rightarrow> bool) \<Rightarrow> nat \<Rightarrow> string list \<Rightarrow> (nat \<times> string) option" where
  "first_invalid valid i [] = None"
| "first_invalid valid i (x # xs) =
     (if \<not> valid x then Some (i, x) else first_invalid valid (Suc i) xs)"

definition Validate :: "gronx \<Rightarrow> CronMatcher \<Rightarrow> error option" where
  "Validate g cm =
     (case first_invalid (IsValid g) 0 (EnableAt cm) of
        Some (i, enableAt) \<Rightarrow> Some (InvalidEnableAt i enableAt)
      | None \<Rightarrow>
          (case first_invalid (IsValid g) 0 (DisableAt cm) of
             Some (i, disableAt) \<Rightarrow> Some (InvalidDisableAt i disableAt)
           | None \<Rightarrow> None))"

subsection \<open>UnmarshalCaddyfile\<close>

text \<open>
  The Caddyfile dispenser belongs to Caddy, not to the repository. It is a parameter: a
  state \<open>'d\<close> with the three methods the module calls. \<^verbatim>\<open>Next\<close> and \<^verbatim>\<open>RemainingArgs\<close>
  move the cursor, so they return the new state as well; \<^verbatim>\<open>Err\<close> renders a message at
  the current position.

  Nothing is known about when \<^verbatim>\<open>Next\<close> of an arbitrary dispenser returns false, so the
  loop is a partial function: \<open>None\<close> is a call that does not return.
\<close>

record 'd dispenser =
  Next :: "'d \<Rightarrow> bool \<times> 'd"
  RemainingArgs :: "'d \<Rightarrow> string list \<times> 'd"
  Err :: "'d \<Rightarrow> string \<Rightarrow> string"

definition two_arguments :: string where
  "two_arguments =
     ''each '' @ quoted ''cron'' @ '' block must have exactly 2 arguments: '' @
     quoted ''enable_at'' @ '' and '' @ quoted ''disable_at''"

partial_function (option) UnmarshalCaddyfile ::
  "'d dispenser \<Rightarrow> 'd \<Rightarrow> CronMatcher \<Rightarrow> (error option \<times> 'd \<times> CronMatcher) option" where
  "UnmarshalCaddyfile D d cm =
     (case Next D d of
        (loaded, d1) \<Rightarrow>
          if \<not> loaded then Some (None, d1, cm)
          else
            (case RemainingArgs D d1 of
               (args, d2) \<Rightarrow>
                 if length args = 2 then
                   UnmarshalCaddyfile D d2
                     (cm\<lparr>EnableAt := EnableAt cm @ [args ! 0]\<rparr>
                        \<lparr>DisableAt := DisableAt cm @ [args ! 1]\<rparr>)
                 else Some (Some (DispenserErr (Err D d2 two_arguments)), d2, cm)))"

subsection \<open>Match\<close>

text \<open>
  The clock \<^verbatim>\<open>nowFunc\<close> is read once, at the start of \<^verbatim>\<open>Match\<close>; its value is the
  parameter \<open>now\<close>. The request is never read.

  The test of one window: \<open>now\<close> is at or after \<open>lastEnable\<close> and before \<open>nextDisable\<close>.
\<close>

definition in_range :: "Time \<Rightarrow> Time \<Rightarrow> Time \<Rightarrow> bool" where
  "in_range now lastEnable nextDisable =
     (Equal now lastEnable \<or> (After now lastEnable \<and> Before now nextDisable))"

text \<open>
  One iteration of the loop, for index \<open>i\<close> of \<^verbatim>\<open>EnableAt\<close>. It ends in \<^verbatim>\<open>continue\<close>
  (also by reaching the end of the body), in \<^verbatim>\<open>return true\<close>, or in the run-time panic
  of reading \<^verbatim>\<open>DisableAt[i]\<close> beyond the end of that slice.
\<close>

datatype panic = IndexOutOfRange

datatype control = Continue | ReturnTrue | Raise panic

definition Match_iter :: "gronx \<Rightarrow> Time \<Rightarrow> nat \<Rightarrow> CronMatcher \<Rightarrow> control \<times> CronMatcher" where
  "Match_iter g now i cm =
     (case PrevTickBefore g (EnableAt cm ! i) now True of
        Inl err \<Rightarrow>
          (Continue,
           log ErrorLevel ''Failed to compute last enable time''
             [ZapString ''EnableAt'' (EnableAt cm ! i), ZapError err] cm)
      | Inr lastEnable \<Rightarrow>
          if length (DisableAt cm) \<le> i then (Raise IndexOutOfRange, cm)
          else
            (case NextTickAfter g (DisableAt cm ! i) lastEnable False of
               Inl err \<Rightarrow>
                 (Continue,
                  log ErrorLevel ''Failed to compute next disable time''
                    [ZapString ''DisableAt'' (DisableAt cm ! i), ZapError err] cm)
             | Inr nextDisable \<Rightarrow>
                 (let cm1 =
                        log DebugLevel ''Evaluating cron schedule''
                          [ZapString ''EnableAt'' (EnableAt cm ! i),
                           ZapString ''DisableAt'' (DisableAt cm ! i),
                           ZapTime ''now'' now,
                           ZapTime ''last_enable'' lastEnable,
                           ZapTime ''next_disable'' nextDisable] cm
                  in if in_range now lastEnable nextDisable then
                       (ReturnTrue,
                        log DebugLevel ''Request matches within the enable/disable range''
                          [ZapTime ''now'' now,
                           ZapTime ''last_enable'' lastEnable,
                           ZapTime ''next_disable'' nextDisable] cm1)
                     else (Continue, cm1))))"

text \<open>The loop over the indices of \<^verbatim>\<open>EnableAt\<close>, and what follows it.\<close>

fun Match_loop :: "gronx \<Rightarrow> Time \<Rightarrow> nat list \<Rightarrow> CronMatcher \<Rightarrow> (panic + bool) \<times> CronMatcher" where
  "Match_loop g now [] cm =
     (Inr False,
      log DebugLevel ''Request did not match any cron schedule'' [ZapTime ''now'' now] cm)"
| "Match_loop g now (i # is) cm =
     (case Match_iter g now i cm of
        (Continue, cm1) \<Rightarrow> Match_loop g now is cm1
      | (ReturnTrue, cm1) \<Rightarrow> (Inr True, cm1)
      | (Raise p, cm1) \<Rightarrow> (Inl p, cm1))"

definition Match :: "gronx \<Rightarrow> Time \<Rightarrow> 'req \<Rightarrow> CronMatcher \<Rightarrow> (panic + bool) \<times> CronMatcher" where
  "Match g now r cm = Match_loop g now [0..<length (EnableAt cm)] cm"

section \<open>The query as the specification words it\<close>

text \<open>
  The result of one pair, with a failure of either tick function counted as no match, and
  the result of a query as the disjunction over all pairs, none skipped. These two follow
  the specification; \<open>Match\<close> above follows the code.
\<close>

definition pair_matches :: "gronx \<Rightarrow> Time \<Rightarrow> string \<Rightarrow> string \<Rightarrow> bool" where
  "pair_matches g now startRule endRule =
     (case PrevTickBefore g startRule now True of
        Inl err \<Rightarrow> False
      | Inr lastStart \<Rightarrow>
          (case NextTickAfter g endRule lastStart False of
             Inl err \<Rightarrow> False
           | Inr nextEnd \<Rightarrow> in_range now lastStart nextEnd))"

definition pair_fails :: "gronx \<Rightarrow> Time \<Rightarrow> string \<Rightarrow> string \<Rightarrow> bool" where
  "pair_fails g now startRule endRule =
     (case PrevTickBefore g startRule now True of
        Inl err \<Rightarrow> True
      | Inr lastStart \<Rightarrow>
          (case NextTickAfter g endRule lastStart False of
             Inl err \<Rightarrow> True
           | Inr nextEnd \<Rightarrow> False))"

definition matches_any :: "gronx \<Rightarrow> Time \<Rightarrow> CronMatcher \<Rightarrow> bool" where
  "matches_any g now cm =
     foldr (\<or>) (map (\<lambda>(s, e). pair_matches g now s e) (zip (EnableAt cm) (DisableAt cm))) False"

definition without_pair :: "nat \<Rightarrow> CronMatcher \<Rightarrow> CronMatcher" where
  "without_pair j cm =
     cm\<lparr>EnableAt := take j (EnableAt cm) @ drop (Suc j) (EnableAt cm),
        DisableAt := take j (DisableAt cm) @ drop (Suc j) (DisableAt cm)\<rparr>"

text \<open>
  A parse of the Caddyfile extends the two slices by as many start rules as end rules.
\<close>

definition pairs_appended :: "CronMatcher \<Rightarrow> CronMatcher \<Rightarrow> bool" where
  "pairs_appended cm cm' =
     (\<exists>enables disables. length enables = length disables \<and>
        EnableAt cm' = EnableAt cm @ enables \<and> DisableAt cm' = DisableAt cm @ disables)"

text \<open>
  Modelled from the spec: the contract of the recurrence evaluator (section 4.1), whose
  code belongs to the library and is not in the repository. For a rule with the set
  \<open>ticks\<close> of matching instants, a previous match that is found is the latest tick at or
  before the reference, and a next match that is found is the earliest tick strictly
  after the reference. A search may fail; the contract says nothing then.
\<close>

definition latest_at_or_before :: "gronx \<Rightarrow> string \<Rightarrow> int set \<Rightarrow> bool" where
  "latest_at_or_before g rule ticks =
     (\<forall>ref p. PrevTickBefore g rule ref True = Inr p \<longrightarrow>
        unixNano p \<in> ticks \<and> unixNano p \<le> unixNano ref \<and>
        (\<forall>x\<in>ticks. x \<le> unixNano ref \<longrightarrow> x \<le> unixNano p))"

definition earliest_after :: "gronx \<Rightarrow> string \<Rightarrow> int set \<Rightarrow> bool" where
  "earliest_after g rule ticks =
     (\<forall>ref q. NextTickAfter g rule ref False = Inr q \<longrightarrow>
        unixNano q \<in> ticks \<and> unixNano ref < unixNano q \<and>
        (\<forall>y\<in>ticks. unixNano ref < y \<longrightarrow> unixNano q \<le> y))"

section \<open>A cron library and a dispenser for concrete runs\<close>

text \<open>
  A small stand-in for \<^verbatim>\<open>gronx\<close>: it knows a few expressions of the form
  \<^verbatim>\<open>0 H * * *\<close> (every day at \<open>H\<close> o'clock, UTC) and the expression \<^verbatim>\<open>0 0 30 2 *\<close>
  (the 30th of February), which is well formed and has no tick. Every other string is
  invalid.
\<close>

datatype schedule = Daily int | Never

definition known :: "string \<Rightarrow> schedule option" where
  "known expr =
     map_of
       [(''0 9 * * *'', Daily 9), (''0 10 * * *'', Daily 10), (''0 11 * * *'', Daily 11),
        (''0 15 * * *'', Daily 15), (''0 16 * * *'', Daily 16), (''0 0 30 2 *'', Never)]
       expr"

definition hour :: int where
  "hour = 3600000000000"

definition day :: int where
  "day = 24 * hour"

definition daily_prev :: "int \<Rightarrow> Time \<Rightarrow> bool \<Rightarrow> Time" where
  "daily_prev h ref incl =
     (let tick = (unixNano ref - h * hour) div day * day + h * hour
      in ref\<lparr>unixNano := (if incl \<or> tick < unixNano ref then tick else tick - day)\<rparr>)"

definition daily_next :: "int \<Rightarrow> Time \<Rightarrow> bool \<Rightarrow> Time" where
  "daily_next h ref incl =
     (let tick = (unixNano ref - h * hour) div day * day + h * hour
      in ref\<lparr>unixNano := (if incl \<and> tick = unixNano ref then tick else tick + day)\<rparr>)"

definition daily_gronx :: gronx where
  "daily_gronx =
     \<lparr>IsValid = (\<lambda>expr. known expr \<noteq> None),
      PrevTickBefore =
        (\<lambda>expr ref incl.
           case known expr of
             None \<Rightarrow> Inl ''expr should contain at least 5 segments''
           | Some Never \<Rightarrow> Inl ''unreachable expr''
           | Some (Daily h) \<Rightarrow> Inr (daily_prev h ref incl)),
      NextTickAfter =
        (\<lambda>expr ref incl.
           case known expr of
             None \<Rightarrow> Inl ''expr should contain at least 5 segments''
           | Some Never \<Rightarrow> Inl ''unreachable expr''
           | Some (Daily h) \<Rightarrow> Inr (daily_next h ref incl))\<rparr>"

text \<open>Instants of 2024-11-01 (a Friday), UTC, by hour and minute.\<close>

definition nov1 :: "int \<Rightarrow> int \<Rightarrow> Time" where
  "nov1 h m = \<lparr>unixNano = 1730419200000000000 + h * hour + m * 60000000000, location = ''UTC''\<rparr>"

text \<open>
  A dispenser over the lines of a matcher block, each line a list of tokens. Its state is
  the rest of the current line and the lines not yet reached.
\<close>

fun lines_Next :: "string list \<times> string list list \<Rightarrow> bool \<times> (string list \<times> string list list)" where
  "lines_Next (t # ts, ls) = (True, (ts, ls))"
| "lines_Next ([], (t # ts) # ls) = (True, (ts, ls))"
| "lines_Next ([], [] # ls) = lines_Next ([], ls)"
| "lines_Next ([], []) = (False, ([], []))"

definition lines_dispenser :: "(string list \<times> string list list) dispenser" where
  "lines_dispenser =
     \<lparr>Next = lines_Next,
      RemainingArgs = (\<lambda>(ts, ls). (ts, ([], ls))),
      Err = (\<lambda>d msg. msg)\<rparr>"

definition unconfigured :: CronMatcher where
  "unconfigured = \<lparr>EnableAt = [], DisableAt = [], logger = []\<rparr>"

text \<open>The instants at which the stand-in library lets \<^verbatim>\<open>0 H * * *\<close> tick.\<close>

definition daily_ticks :: "int \<Rightarrow> int set" where
  "daily_ticks h = {x. \<exists>k. x = k * day + h * hour}"

text \<open>How much of the block the dispenser over lines has still to hand out.\<close>

fun lines_left :: "string list \<times> string list list \<Rightarrow> nat" where
  "lines_left (ts, ls) = 2 * length ls + (if ts = [] then 0 else 1)"

text \<open>Configurations for the concrete runs.\<close>

definition one_window :: CronMatcher where
  "one_window = \<lparr>EnableAt = [''0 10 * * *''], DisableAt = [''0 11 * * *''], logger = []\<rparr>"

definition two_windows :: CronMatcher where
  "two_windows =
     \<lparr>EnableAt = [''0 10 * * *'', ''0 15 * * *''],
      DisableAt = [''0 11 * * *'', ''0 16 * * *''],
      logger = []\<rparr>"

definition swapped_windows :: CronMatcher where
  "swapped_windows =
     \<lparr>EnableAt = [''0 15 * * *'', ''0 10 * * *''],
      DisableAt = [''0 16 * * *'', ''0 11 * * *''],
      logger = []\<rparr>"

definition broken_first :: CronMatcher where
  "broken_first =
     \<lparr>EnableAt = [''0 0 30 2 *'', ''0 10 * * *''],
      DisableAt = [''0 11 * * *'', ''0 11 * * *''],
      logger = []\<rparr>"

definition only_broken :: CronMatcher where
  "only_broken = \<lparr>EnableAt = [''0 0 30 2 *''], DisableAt = [''0 11 * * *''], logger = []\<rparr>"

definition empty_start :: CronMatcher where
  "empty_start = \<lparr>EnableAt = [[]], DisableAt = [''0 9 * * *''], logger = []\<rparr>"

definition misspelt_start :: CronMatcher where
  "misspelt_start = \<lparr>EnableAt = [''daily''], DisableAt = [''0 9 * * *''], logger = []\<rparr>"

definition unpaired :: CronMatcher where
  "unpaired =
     \<lparr>EnableAt = [''0 10 * * *'', ''0 15 * * *''], DisableAt = [''0 11 * * *''], logger = []\<rparr>"

definition bad_second_end :: CronMatcher where
  "bad_second_end =
     \<lparr>EnableAt = [''0 10 * * *'', ''0 15 * * *''],
      DisableAt = [''0 11 * * *'', ''4pm''],
      logger = []\<rparr>"

definition cron_block :: "string list list" where
  "cron_block =
     [[''cron'', ''0 10 * * *'', ''0 11 * * *''], [''cron'', ''0 15 * * *'', ''0 16 * * *'']]"

definition one_argument :: "string list list" where
  "one_argument = [[''cron'', ''0 10 * * *'']]"

section \<open>Facts about the loop of \<open>Match\<close>\<close>

lemma log_slices [simp]:
  "EnableAt (log lvl msg fs cm) = EnableAt cm" "DisableAt (log lvl msg fs cm) = DisableAt cm"
  by (simp_all add: log_def)

lemma Match_iter_slices:
  "EnableAt (snd (Match_iter g now i cm)) = EnableAt cm \<and>
   DisableAt (snd (Match_iter g now i cm)) = DisableAt cm"
  by (simp add: Match_iter_def Let_def split: sum.splits)

lemma Match_iter_control:
  assumes "EnableAt cm' = EnableAt cm" and "DisableAt cm' = DisableAt cm"
  shows "fst (Match_iter g now i cm') = fst (Match_iter g now i cm)"
  using assms by (simp add: Match_iter_def Let_def split: sum.splits)

lemma Match_iter_pair:
  assumes "i < length (DisableAt cm)"
  shows "fst (Match_iter g now i cm) =
    (if pair_matches g now (EnableAt cm ! i) (DisableAt cm ! i) then ReturnTrue else Continue)"
  using assms by (simp add: Match_iter_def pair_matches_def Let_def split: sum.splits)

lemma Match_loop_slices:
  "EnableAt (snd (Match_loop g now is cm)) = EnableAt cm \<and>
   DisableAt (snd (Match_loop g now is cm)) = DisableAt cm"
proof (induction "is" arbitrary: cm)
  case Nil
  show ?case by simp
next
  case (Cons i "is")
  obtain c cm1 where step: "Match_iter g now i cm = (c, cm1)"
    by (cases "Match_iter g now i cm")
  with Match_iter_slices [of g now i cm]
  have same: "EnableAt cm1 = EnableAt cm" "DisableAt cm1 = DisableAt cm" by simp_all
  show ?case
  proof (cases c)
    case Continue
    with step Cons.IH [of cm1] same show ?thesis by simp
  next
    case ReturnTrue
    with step same show ?thesis by simp
  next
    case (Raise p)
    with step same show ?thesis by simp
  qed
qed

lemma Match_loop_control:
  assumes "EnableAt cm' = EnableAt cm" and "DisableAt cm' = DisableAt cm"
  shows "fst (Match_loop g now is cm') = fst (Match_loop g now is cm)"
  using assms
proof (induction "is" arbitrary: cm cm')
  case Nil
  show ?case by simp
next
  case (Cons i "is")
  obtain c cm1 where step: "Match_iter g now i cm = (c, cm1)"
    by (cases "Match_iter g now i cm")
  obtain c' cm1' where step': "Match_iter g now i cm' = (c', cm1')"
    by (cases "Match_iter g now i cm'")
  from Match_iter_control [OF Cons.prems, of g now i] step step' have c: "c' = c" by simp
  from Match_iter_slices [of g now i cm] Match_iter_slices [of g now i cm'] step step' Cons.prems
  have same: "EnableAt cm1' = EnableAt cm1" "DisableAt cm1' = DisableAt cm1" by simp_all
  show ?case
  proof (cases c)
    case Continue
    with step step' c Cons.IH [OF same] show ?thesis by simp
  next
    case ReturnTrue
    with step step' c show ?thesis by simp
  next
    case (Raise p)
    with step step' c show ?thesis by simp
  qed
qed

lemma Match_loop_pairs:
  assumes "\<forall>i\<in>set is. i < length (DisableAt cm)"
  shows "fst (Match_loop g now is cm) =
    Inr (\<exists>i\<in>set is. pair_matches g now (EnableAt cm ! i) (DisableAt cm ! i))"
  using assms
proof (induction "is" arbitrary: cm)
  case Nil
  show ?case by simp
next
  case (Cons i "is")
  obtain c cm1 where step: "Match_iter g now i cm = (c, cm1)"
    by (cases "Match_iter g now i cm")
  with Match_iter_slices [of g now i cm]
  have same: "EnableAt cm1 = EnableAt cm" "DisableAt cm1 = DisableAt cm" by simp_all
  from Cons.prems have i: "i < length (DisableAt cm)" by simp
  from Match_iter_pair [OF i, of g now] step
  have c: "c = (if pair_matches g now (EnableAt cm ! i) (DisableAt cm ! i) then ReturnTrue else Continue)"
    by simp
  show ?case
  proof (cases "pair_matches g now (EnableAt cm ! i) (DisableAt cm ! i)")
    case True
    with c step show ?thesis by simp
  next
    case False
    from Cons.prems same have "\<forall>i\<in>set is. i < length (DisableAt cm1)" by simp
    from Cons.IH [OF this] False c step same show ?thesis by simp
  qed
qed

lemma Match_pairs:
  assumes "length (DisableAt cm) = length (EnableAt cm)"
  shows "fst (Match g now r cm) =
    Inr (\<exists>i<length (EnableAt cm). pair_matches g now (EnableAt cm ! i) (DisableAt cm ! i))"
proof -
  from assms have "\<forall>i\<in>set [0..<length (EnableAt cm)]. i < length (DisableAt cm)" by simp
  from Match_loop_pairs [OF this, of g now]
  have "fst (Match g now r cm) =
    Inr (\<exists>i\<in>set [0..<length (EnableAt cm)].
      pair_matches g now (EnableAt cm ! i) (DisableAt cm ! i))"
    by (simp add: Match_def)
  also have "(\<exists>i\<in>set [0..<length (EnableAt cm)].
      pair_matches g now (EnableAt cm ! i) (DisableAt cm ! i)) =
    (\<exists>i<length (EnableAt cm). pair_matches g now (EnableAt cm ! i) (DisableAt cm ! i))"
    by auto
  finally show ?thesis .
qed

lemma foldr_disj: "foldr (\<or>) bs False = (\<exists>b\<in>set bs. b)"
  by (induction bs) auto

lemma matches_any_zip:
  "matches_any g now cm =
    (\<exists>(s, e)\<in>set (zip (EnableAt cm) (DisableAt cm)). pair_matches g now s e)"
  by (auto simp add: matches_any_def foldr_disj)

lemma index_zip:
  assumes "length ys = length xs"
  shows "(\<exists>i<length xs. P (xs ! i) (ys ! i)) = (\<exists>(x, y)\<in>set (zip xs ys). P x y)"
  using assms by (auto simp add: set_zip) 

lemma Match_matches_any:
  assumes "length (DisableAt cm) = length (EnableAt cm)"
  shows "fst (Match g now r cm) = Inr (matches_any g now cm)"
  using Match_pairs [OF assms, of g now r] index_zip [OF assms, of "pair_matches g now"]
  by (simp add: matches_any_zip)

lemma pair_fails_no_match: "pair_fails g now s e \<Longrightarrow> \<not> pair_matches g now s e"
  by (simp add: pair_fails_def pair_matches_def split: sum.splits)

lemma pair_matches_found:
  "pair_matches g now s e =
    (\<exists>lastStart nextEnd. PrevTickBefore g s now True = Inr lastStart \<and>
       NextTickAfter g e lastStart False = Inr nextEnd \<and> in_range now lastStart nextEnd)"
  by (auto simp add: pair_matches_def split: sum.splits)

lemma zip_without:
  assumes "length ys = length xs" and "j < length xs"
  shows "set (zip xs ys) =
    insert (xs ! j, ys ! j) (set (zip (take j xs @ drop (Suc j) xs) (take j ys @ drop (Suc j) ys)))"
proof -
  from assms have j: "j < length (zip xs ys)" by simp
  have "zip (take j xs @ drop (Suc j) xs) (take j ys @ drop (Suc j) ys) =
      take j (zip xs ys) @ drop (Suc j) (zip xs ys)"
    using assms by (simp add: take_zip drop_zip)
  moreover have "zip xs ys = take j (zip xs ys) @ (zip xs ys ! j) # drop (Suc j) (zip xs ys)"
    using j by (rule id_take_nth_drop)
  moreover have "zip xs ys ! j = (xs ! j, ys ! j)"
    using assms by simp
  ultimately have "zip xs ys =
      take j (zip xs ys) @ (xs ! j, ys ! j) # drop (Suc j) (zip xs ys)"
     and "set (zip (take j xs @ drop (Suc j) xs) (take j ys @ drop (Suc j) ys)) =
      set (take j (zip xs ys)) \<union> set (drop (Suc j) (zip xs ys))"
    by simp_all
  then show ?thesis
    by (metis Un_insert_right list.simps(15) set_append)
qed

lemma without_pair_lengths:
  assumes "length (DisableAt cm) = length (EnableAt cm)"
  shows "length (DisableAt (without_pair j cm)) = length (EnableAt (without_pair j cm))"
  using assms by (simp add: without_pair_def)

lemma matches_any_without:
  assumes "length (DisableAt cm) = length (EnableAt cm)" and "j < length (EnableAt cm)"
    and "\<not> pair_matches g now (EnableAt cm ! j) (DisableAt cm ! j)"
  shows "matches_any g now (without_pair j cm) = matches_any g now cm"
proof -
  from zip_without [OF assms(1,2)] assms(3)
  show ?thesis
    by (simp add: matches_any_zip without_pair_def)
qed

lemma Match_single:
  assumes "EnableAt cm = [s]" and "DisableAt cm = [e]"
  shows "fst (Match g t r cm) = Inr (pair_matches g t s e)"
proof -
  from assms have "length (DisableAt cm) = length (EnableAt cm)" by simp
  from Match_pairs [OF this, of g t r] assms show ?thesis by simp
qed

lemma window_resolved:
  assumes prev: "latest_at_or_before g s S" and nxt: "earliest_after g e E"
    and found_prev: "\<not> isl (PrevTickBefore g s t True)"
    and found_next: "\<forall>ref. unixNano ref = T0 \<longrightarrow> \<not> isl (NextTickAfter g e ref False)"
    and ticks: "T0 \<in> S" "T1 \<in> E" "T0 < T1"
    and alone: "\<forall>x\<in>S. \<not> (T0 < x \<and> x \<le> T1)" "\<forall>y\<in>E. \<not> (T0 < y \<and> y < T1)"
    and t: "T0 \<le> unixNano t" "unixNano t \<le> T1"
  shows "pair_matches g t s e = (unixNano t < T1)"
proof -
  from found_prev obtain p where p: "PrevTickBefore g s t True = Inr p"
    by (cases "PrevTickBefore g s t True") simp_all
  with prev have pS: "unixNano p \<in> S" and ple: "unixNano p \<le> unixNano t"
    and pmax: "\<forall>x\<in>S. x \<le> unixNano t \<longrightarrow> x \<le> unixNano p"
    by (simp_all add: latest_at_or_before_def)
  from pmax ticks(1) t(1) have "T0 \<le> unixNano p" by blast
  with alone(1) pS ple t(2) have p0: "unixNano p = T0" by force
  with found_next obtain q where q: "NextTickAfter g e p False = Inr q"
    by (cases "NextTickAfter g e p False") auto
  with nxt have qE: "unixNano q \<in> E" and qgt: "unixNano p < unixNano q"
    and qmin: "\<forall>y\<in>E. unixNano p < y \<longrightarrow> unixNano q \<le> y"
    by (simp_all add: earliest_after_def)
  from qmin ticks(2,3) p0 have "unixNano q \<le> T1" by simp
  with alone(2) qE qgt p0 have q1: "unixNano q = T1" by force
  from p q p0 q1 t(1) ticks(3) show ?thesis
    by (auto simp add: pair_matches_def in_range_def Equal_def After_def Before_def)
qed

lemma window_closed:
  assumes prev: "latest_at_or_before g s S" and nxt: "earliest_after g e E"
    and t: "unixNano t \<notin> S" "\<forall>x\<in>S. x < unixNano t \<longrightarrow> (\<exists>y\<in>E. x < y \<and> y \<le> unixNano t)"
  shows "\<not> pair_matches g t s e"
proof (cases "PrevTickBefore g s t True")
  case (Inl err)
  then show ?thesis by (simp add: pair_matches_def)
next
  case (Inr p)
  with prev have pS: "unixNano p \<in> S" and ple: "unixNano p \<le> unixNano t"
    by (simp_all add: latest_at_or_before_def)
  with t(1) have plt: "unixNano p < unixNano t" by (cases "unixNano p = unixNano t") auto
  with t(2) pS obtain y where y: "y \<in> E" "unixNano p < y" "y \<le> unixNano t" by blast
  show ?thesis
  proof (cases "NextTickAfter g e p False")
    case (Inl err)
    with Inr show ?thesis by (simp add: pair_matches_def)
  next
    case (Inr q)
    with nxt y have "unixNano q \<le> y" by (simp add: earliest_after_def)
    with y(3) plt Inr \<open>PrevTickBefore g s t True = Inr p\<close> show ?thesis
      by (simp add: pair_matches_def in_range_def Equal_def After_def Before_def)
  qed
qed

lemma start_tick_matches:
  assumes "PrevTickBefore g s t True = Inr p" and "unixNano p = unixNano t"
    and "NextTickAfter g e p False = Inr q"
  shows "pair_matches g t s e"
  using assms by (simp add: pair_matches_def in_range_def Equal_def)

lemma first_invalid_None:
  "(first_invalid valid k xs = None) = (\<forall>x\<in>set xs. valid x)"
  by (induction xs arbitrary: k) auto

lemma first_invalid_Some:
  assumes "first_invalid valid k xs = Some (i, x)"
  shows "k \<le> i \<and> i - k < length xs \<and> x = xs ! (i - k) \<and> \<not> valid x"
  using assms
proof (induction xs arbitrary: k)
  case Nil
  then show ?case by simp
next
  case (Cons y ys)
  show ?case
  proof (cases "valid y")
    case False
    with Cons.prems show ?thesis by simp
  next
    case True
    with Cons.prems have "first_invalid valid (Suc k) ys = Some (i, x)" by simp
    from Cons.IH [OF this] show ?thesis
      by (auto simp add: Suc_diff_le nth_Cons')
  qed
qed

lemma first_invalid_0:
  assumes "first_invalid valid 0 xs = Some (i, x)"
  shows "i < length xs \<and> x = xs ! i \<and> \<not> valid x"
  using first_invalid_Some [OF assms] by auto

lemma pairs_appended_refl: "pairs_appended cm cm"
  by (simp add: pairs_appended_def)

lemma pairs_appended_step:
  assumes "pairs_appended (cm\<lparr>EnableAt := EnableAt cm @ [a]\<rparr>\<lparr>DisableAt := DisableAt cm @ [b]\<rparr>) cm'"
  shows "pairs_appended cm cm'"
proof -
  from assms obtain es ds where "length es = length ds"
    and "EnableAt cm' = EnableAt cm @ a # es" and "DisableAt cm' = DisableAt cm @ b # ds"
    by (auto simp add: pairs_appended_def)
  then have "length (a # es) = length (b # ds) \<and>
      EnableAt cm' = EnableAt cm @ (a # es) \<and> DisableAt cm' = DisableAt cm @ (b # ds)"
    by simp
  then show ?thesis unfolding pairs_appended_def by blast
qed

lemma UnmarshalCaddyfile_appends:
  assumes "UnmarshalCaddyfile D d cm = Some y"
  shows "pairs_appended cm (snd (snd y))"
proof (rule UnmarshalCaddyfile.raw_induct
    [where P = "\<lambda>D d cm y. pairs_appended cm (snd (snd y))", OF _ assms], goal_cases)
  case (1 unmarshal D d cm y)
  obtain loaded d1 where nxt: "Next D d = (loaded, d1)" by (cases "Next D d")
  obtain args d2 where rem: "RemainingArgs D d1 = (args, d2)" by (cases "RemainingArgs D d1")
  show ?case
  proof (cases "loaded \<and> length args = 2")
    case True
    with 1(2) nxt rem
    have "unmarshal D d2
        (cm\<lparr>EnableAt := EnableAt cm @ [args ! 0]\<rparr>\<lparr>DisableAt := DisableAt cm @ [args ! 1]\<rparr>) = Some y"
      by simp
    from 1(1) [OF this] show ?thesis by (rule pairs_appended_step)
  next
    case False
    with 1(2) nxt rem have "snd (snd y) = cm" by (auto split: if_splits)
    then show ?thesis by (simp add: pairs_appended_refl)
  qed
qed

lemma UnmarshalCaddyfile_returns:
  fixes m :: "'d \<Rightarrow> nat"
  assumes "\<forall>d d1 args d2. Next D d = (True, d1) \<and> RemainingArgs D d1 = (args, d2) \<longrightarrow> m d2 < m d"
  shows "\<exists>y. UnmarshalCaddyfile D d cm = Some y"
proof (induction "m d" arbitrary: d cm rule: less_induct)
  case less
  obtain loaded d1 where nxt: "Next D d = (loaded, d1)" by (cases "Next D d")
  obtain args d2 where rem: "RemainingArgs D d1 = (args, d2)" by (cases "RemainingArgs D d1")
  show ?case
  proof (cases "loaded \<and> length args = 2")
    case True
    with nxt have "Next D d = (True, d1)" by simp
    with assms rem have "m d2 < m d" by blast
    from less [OF this] obtain y where
      "UnmarshalCaddyfile D d2
        (cm\<lparr>EnableAt := EnableAt cm @ [args ! 0]\<rparr>\<lparr>DisableAt := DisableAt cm @ [args ! 1]\<rparr>) = Some y"
      by blast
    with True nxt rem have "UnmarshalCaddyfile D d cm = Some y"
      by (subst UnmarshalCaddyfile.simps) simp
    then show ?thesis by blast
  next
    case False
    with nxt rem show ?thesis
      by (subst UnmarshalCaddyfile.simps) auto
  qed
qed

section \<open>Facts about the stand-in cron library\<close>

lemma known_simps:
  "known ''0 9 * * *'' = Some (Daily 9)"
  "known ''0 10 * * *'' = Some (Daily 10)"
  "known ''0 11 * * *'' = Some (Daily 11)"
  "known ''0 15 * * *'' = Some (Daily 15)"
  "known ''0 16 * * *'' = Some (Daily 16)"
  "known ''0 0 30 2 *'' = Some Never"
  "known [] = None"
  by (simp_all add: known_def)

lemma prev_10_30:
  "PrevTickBefore daily_gronx ''0 10 * * *'' (nov1 10 30) True = Inr (nov1 10 0)"
  by (simp add: daily_gronx_def known_simps daily_prev_def nov1_def hour_def day_def)

lemma next_10_00:
  "NextTickAfter daily_gronx ''0 11 * * *'' (nov1 10 0) False = Inr (nov1 11 0)"
  by (simp add: daily_gronx_def known_simps daily_next_def nov1_def hour_def day_def)

lemmas daily_defs =
  daily_gronx_def known_simps daily_prev_def daily_next_def in_range_def
  Equal_def After_def Before_def nov1_def hour_def day_def

lemma floor_below: fixes d :: int assumes "0 < d" shows "a div d * d \<le> a"
  using assms by (metis add.commute div_mult_mod_eq le_add_same_cancel2 pos_mod_sign)

lemma floor_above: fixes d :: int assumes "0 < d" shows "a < a div d * d + d"
  using assms by (metis add_less_cancel_left div_mult_mod_eq pos_mod_bound)

lemma floor_greatest: fixes d :: int assumes "0 < d" and "k * d \<le> a" shows "k \<le> a div d"
  using assms by (metis less_le_not_le zdiv_mono1 nonzero_mult_div_cancel_right)

lemma floor_least: fixes d :: int assumes "0 < d" and "a < k * d" shows "a div d < k"
  using assms floor_below [OF assms(1), of a]
  by (metis le_less_trans mult_less_cancel_right_pos)

lemma day_pos: "0 < day"
  by (simp add: day_def hour_def)


lemma daily_ticksI: "k * day + h * hour \<in> daily_ticks h"
  by (auto simp add: daily_ticks_def)

lemma daily_prev_latest:
  assumes "known expr = Some (Daily h)"
  shows "latest_at_or_before daily_gronx expr (daily_ticks h)"
proof -
  have "(u - h * hour) div day * day + h * hour \<in> daily_ticks h" for u
    by (rule daily_ticksI)
  moreover have "(u - h * hour) div day * day + h * hour \<le> u" for u
    using floor_below [OF day_pos, of "u - h * hour"] by simp
  moreover have "x \<le> (u - h * hour) div day * day + h * hour"
    if "x \<in> daily_ticks h" and "x \<le> u" for x u
  proof -
    from that(1) obtain k where x: "x = k * day + h * hour"
      by (auto simp add: daily_ticks_def)
    with that(2) have "k * day \<le> u - h * hour" by simp
    from floor_greatest [OF day_pos this] day_pos
    have "k * day \<le> (u - h * hour) div day * day" by simp
    with x show ?thesis by simp
  qed
  ultimately show ?thesis
    using assms by (auto simp add: latest_at_or_before_def daily_gronx_def daily_prev_def)
qed

lemma daily_next_earliest:
  assumes "known expr = Some (Daily h)"
  shows "earliest_after daily_gronx expr (daily_ticks h)"
proof -
  have "(u - h * hour) div day * day + h * hour + day \<in> daily_ticks h" for u
  proof -
    have "(u - h * hour) div day * day + h * hour + day =
        ((u - h * hour) div day + 1) * day + h * hour"
      by (simp add: algebra_simps)
    then show ?thesis by (simp only: daily_ticksI)
  qed
  moreover have "u < (u - h * hour) div day * day + h * hour + day" for u
    using floor_above [OF day_pos, of "u - h * hour"] by simp
  moreover have "(u - h * hour) div day * day + h * hour + day \<le> y"
    if "y \<in> daily_ticks h" and "u < y" for y u
  proof -
    from that(1) obtain k where y: "y = k * day + h * hour"
      by (auto simp add: daily_ticks_def)
    with that(2) have "u - h * hour < k * day" by simp
    from floor_least [OF day_pos this] have "(u - h * hour) div day + 1 \<le> k" by simp
    with day_pos have "((u - h * hour) div day + 1) * day \<le> k * day" by simp
    with y show ?thesis by (simp add: algebra_simps)
  qed
  ultimately show ?thesis
    using assms by (auto simp add: earliest_after_def daily_gronx_def daily_next_def)
qed

lemma ten_o_clock: "unixNano (nov1 10 0) \<in> daily_ticks 10"
proof -
  have "unixNano (nov1 10 0) = 20028 * day + 10 * hour"
    by (simp add: nov1_def day_def hour_def)
  then show ?thesis by (simp only: daily_ticksI)
qed

lemma eleven_o_clock: "unixNano (nov1 11 0) \<in> daily_ticks 11"
proof -
  have "unixNano (nov1 11 0) = 20028 * day + 11 * hour"
    by (simp add: nov1_def day_def hour_def)
  then show ?thesis by (simp only: daily_ticksI)
qed

lemma no_start_until_eleven:
  "\<forall>x\<in>daily_ticks 10. \<not> (unixNano (nov1 10 0) < x \<and> x \<le> unixNano (nov1 11 0))"
  by (auto simp add: daily_ticks_def nov1_def day_def hour_def)

lemma no_end_before_eleven:
  "\<forall>y\<in>daily_ticks 11. \<not> (unixNano (nov1 10 0) < y \<and> y < unixNano (nov1 11 0))"
  by (auto simp add: daily_ticks_def nov1_def day_def hour_def)

lemma before_ten:
  "unixNano (nov1 9 59) \<notin> daily_ticks 10 \<and>
   (\<forall>x\<in>daily_ticks 10. x < unixNano (nov1 9 59) \<longrightarrow>
      (\<exists>y\<in>daily_ticks 11. x < y \<and> y \<le> unixNano (nov1 9 59)))"
proof (intro conjI ballI impI)
  show "unixNano (nov1 9 59) \<notin> daily_ticks 10"
  proof
    assume "unixNano (nov1 9 59) \<in> daily_ticks 10"
    then obtain k where k: "unixNano (nov1 9 59) = k * day + 10 * hour"
      by (auto simp add: daily_ticks_def)
    then have "k * day < 20028 * day" by (simp add: nov1_def day_def hour_def)
    with day_pos have "k \<le> 20027" by simp
    with day_pos have "k * day \<le> 20027 * day" by simp
    moreover have "20027 * day + 10 * hour < unixNano (nov1 9 59)"
      by (simp add: nov1_def day_def hour_def)
    ultimately show False using k by linarith
  qed
next
  fix x
  assume "x \<in> daily_ticks 10" and lt: "x < unixNano (nov1 9 59)"
  then obtain k where x: "x = k * day + 10 * hour"
    by (auto simp add: daily_ticks_def)
  have "k * day + 11 * hour \<in> daily_ticks 11"
    by (rule daily_ticksI)
  moreover have "x < k * day + 11 * hour"
    using x by (simp add: hour_def)
  moreover have "k * day + 11 * hour \<le> unixNano (nov1 9 59)"
  proof -
    from lt x have "k * day < 20028 * day" by (simp add: nov1_def day_def hour_def)
    with day_pos have "k \<le> 20027" by simp
    with day_pos have "k * day \<le> 20027 * day" by simp
    then show ?thesis by (simp add: nov1_def day_def hour_def)
  qed
  ultimately show "\<exists>y\<in>daily_ticks 11. x < y \<and> y \<le> unixNano (nov1 9 59)"
    by blast
qed

lemma lines_Next_consumes:
  assumes "lines_Next ([], ls) = (True, (ts, ls'))"
  shows "length ls' < length ls"
  using assms
proof (induction ls)
  case Nil
  then show ?case by simp
next
  case (Cons l ls)
  then show ?case by (cases l) auto
qed

lemma lines_dispenser_consumes:
  "\<forall>d d1 args d2. Next lines_dispenser d = (True, d1) \<and>
      RemainingArgs lines_dispenser d1 = (args, d2) \<longrightarrow> lines_left d2 < lines_left d"
proof (intro allI impI)
  fix d d1 :: "string list \<times> string list list" and args d2
  assume h: "Next lines_dispenser d = (True, d1) \<and> RemainingArgs lines_dispenser d1 = (args, d2)"
  obtain ts ls where d: "d = (ts, ls)" by (cases d)
  obtain ts1 ls1 where d1: "d1 = (ts1, ls1)" by (cases d1)
  from h d1 have d2: "d2 = ([], ls1)" by (simp add: lines_dispenser_def)
  show "lines_left d2 < lines_left d"
  proof (cases ts)
    case Nil
    with h d d1 have "lines_Next ([], ls) = (True, (ts1, ls1))" by (simp add: lines_dispenser_def)
    from lines_Next_consumes [OF this] d d2 Nil show ?thesis by simp
  next
    case (Cons t ts')
    with h d d1 have "ls1 = ls" by (simp add: lines_dispenser_def)
    with d d2 Cons show ?thesis by simp
  qed
qed

lemma cron_block_parsed:
  "UnmarshalCaddyfile lines_dispenser ([], cron_block) unconfigured =
     Some (None, ([], []), two_windows)"
  by (simp add: UnmarshalCaddyfile.simps lines_dispenser_def cron_block_def unconfigured_def
      two_windows_def)

section \<open>The membership test of one pair\<close>

text \<open>
  Claim C1. For every index \<open>i\<close> of a configured pair and every instant \<open>now\<close>: when the
  start rule's most recent tick at or before \<open>now\<close> (reference included) is \<open>lastStart\<close>
  and the end rule's next tick strictly after \<open>lastStart\<close> is \<open>nextEnd\<close>, the iteration
  for that pair ends in \<^verbatim>\<open>return true\<close> if and only if \<open>now\<close> equals \<open>lastStart\<close>, or
  \<open>now\<close> is after \<open>lastStart\<close> and before \<open>nextEnd\<close>; and that boolean is what \<open>Match\<close>
  returns for the matcher made of this pair alone. The end rule is evaluated from
  \<open>lastStart\<close>; what it yields from \<open>now\<close> plays no part.
\<close>

theorem Match_pair_membership:
  assumes "i < length (EnableAt cm)" and "i < length (DisableAt cm)"
    and "PrevTickBefore g (EnableAt cm ! i) now True = Inr lastStart"
    and "NextTickAfter g (DisableAt cm ! i) lastStart False = Inr nextEnd"
  shows "(fst (Match_iter g now i cm) = ReturnTrue) =
      (Equal now lastStart \<or> (After now lastStart \<and> Before now nextEnd)) \<and>
    fst (Match g now r
        \<lparr>EnableAt = [EnableAt cm ! i], DisableAt = [DisableAt cm ! i], logger = lg\<rparr>) =
      Inr (Equal now lastStart \<or> (After now lastStart \<and> Before now nextEnd))"
proof
  from assms show "(fst (Match_iter g now i cm) = ReturnTrue) =
      (Equal now lastStart \<or> (After now lastStart \<and> Before now nextEnd))"
    by (simp add: Match_iter_def Let_def in_range_def)
next
  have "fst (Match g now r
        \<lparr>EnableAt = [EnableAt cm ! i], DisableAt = [DisableAt cm ! i], logger = lg\<rparr>) =
      Inr (pair_matches g now (EnableAt cm ! i) (DisableAt cm ! i))"
    by (rule Match_single) simp_all
  with assms(3,4) show "fst (Match g now r
        \<lparr>EnableAt = [EnableAt cm ! i], DisableAt = [DisableAt cm ! i], logger = lg\<rparr>) =
      Inr (Equal now lastStart \<or> (After now lastStart \<and> Before now nextEnd))"
    by (simp add: pair_matches_def in_range_def)
qed

theorem Match_pair_membership_witness:
  "fst (Match_iter daily_gronx (nov1 10 30) 0 two_windows) = ReturnTrue \<and>
   fst (Match daily_gronx (nov1 10 30) () one_window) = Inr True \<and>
   After (nov1 10 30) (nov1 10 0) \<and> Before (nov1 10 30) (nov1 11 0)"
proof -
  have i: "0 < length (EnableAt two_windows)" "0 < length (DisableAt two_windows)"
    by (simp_all add: two_windows_def)
  have p: "PrevTickBefore daily_gronx (EnableAt two_windows ! 0) (nov1 10 30) True
      = Inr (nov1 10 0)"
    by (simp add: two_windows_def prev_10_30)
  have n: "NextTickAfter daily_gronx (DisableAt two_windows ! 0) (nov1 10 0) False
      = Inr (nov1 11 0)"
    by (simp add: two_windows_def next_10_00)
  have "After (nov1 10 30) (nov1 10 0) \<and> Before (nov1 10 30) (nov1 11 0)"
    by (simp add: After_def Before_def nov1_def hour_def)
  with Match_pair_membership [OF i p n, of "()" "[]"] show ?thesis
    by (simp add: two_windows_def one_window_def)
qed

section \<open>The boundaries of a window\<close>

text \<open>
  Claim C2. Take a matcher with the single pair \<open>(s, e)\<close> and a library that keeps the
  contract for both rules, \<open>S\<close> and \<open>E\<close> being the ticks of \<open>s\<close> and of \<open>e\<close>. Let \<open>s\<close>
  tick at \<open>T0\<close> and \<open>e\<close> at \<open>T1\<close>, later than \<open>T0\<close>, with no further tick of \<open>s\<close> after
  \<open>T0\<close> up to \<open>T1\<close> and no tick of \<open>e\<close> strictly between them, and let the searches from
  inside the window succeed. Then a query at \<open>T0\<close> matches, a query at \<open>T1\<close> does not, a
  query strictly between them matches, and a query before \<open>T0\<close> at an instant that is no
  start tick and by which every earlier start tick has been followed by an end tick
  (no earlier window covers it) does not match.

  The start rule must not tick at \<open>T1\<close> itself: by \<open>start_tick_matches\<close> a query at a
  start tick matches whenever the end search from it succeeds, even if the end rule
  ticks at that very instant.
\<close>

theorem Match_boundaries:
  assumes "EnableAt cm = [s]" and "DisableAt cm = [e]"
    and "latest_at_or_before g s S" and "earliest_after g e E"
    and "\<forall>ref. T0 \<le> unixNano ref \<and> unixNano ref \<le> T1 \<longrightarrow> \<not> isl (PrevTickBefore g s ref True)"
    and "\<forall>ref. unixNano ref = T0 \<longrightarrow> \<not> isl (NextTickAfter g e ref False)"
    and "T0 \<in> S" and "T1 \<in> E" and "T0 < T1"
    and "\<forall>x\<in>S. \<not> (T0 < x \<and> x \<le> T1)" and "\<forall>y\<in>E. \<not> (T0 < y \<and> y < T1)"
  shows "(\<forall>t. unixNano t = T0 \<longrightarrow> fst (Match g t r cm) = Inr True) \<and>
    (\<forall>t. unixNano t = T1 \<longrightarrow> fst (Match g t r cm) = Inr False) \<and>
    (\<forall>t. T0 < unixNano t \<and> unixNano t < T1 \<longrightarrow> fst (Match g t r cm) = Inr True) \<and>
    (\<forall>t. unixNano t < T0 \<and> unixNano t \<notin> S \<and>
         (\<forall>x\<in>S. x < unixNano t \<longrightarrow> (\<exists>y\<in>E. x < y \<and> y \<le> unixNano t)) \<longrightarrow>
         fst (Match g t r cm) = Inr False)"
proof -
  have inside: "fst (Match g t r cm) = Inr (unixNano t < T1)"
    if "T0 \<le> unixNano t" and "unixNano t \<le> T1" for t
  proof -
    from that assms(5) have "\<not> isl (PrevTickBefore g s t True)" by simp
    from window_resolved [OF assms(3,4) this assms(6-11) that]
    show ?thesis by (simp add: Match_single [OF assms(1,2)])
  qed
  have outside: "fst (Match g t r cm) = Inr False"
    if "unixNano t \<notin> S"
      and "\<forall>x\<in>S. x < unixNano t \<longrightarrow> (\<exists>y\<in>E. x < y \<and> y \<le> unixNano t)" for t
    using window_closed [OF assms(3,4) that] by (simp add: Match_single [OF assms(1,2)])
  from assms(9) inside outside show ?thesis by auto
qed

theorem Match_boundaries_witness:
  "fst (Match daily_gronx (nov1 10 0) () one_window) = Inr True \<and>
   fst (Match daily_gronx (nov1 11 0) () one_window) = Inr False \<and>
   fst (Match daily_gronx (nov1 10 30) () one_window) = Inr True \<and>
   fst (Match daily_gronx (nov1 9 59) () one_window) = Inr False"
proof -
  have found_start: "\<forall>ref. unixNano (nov1 10 0) \<le> unixNano ref \<and> unixNano ref \<le> unixNano (nov1 11 0)
      \<longrightarrow> \<not> isl (PrevTickBefore daily_gronx ''0 10 * * *'' ref True)"
    by (simp add: daily_gronx_def known_simps)
  have found_end: "\<forall>ref. unixNano ref = unixNano (nov1 10 0)
      \<longrightarrow> \<not> isl (NextTickAfter daily_gronx ''0 11 * * *'' ref False)"
    by (simp add: daily_gronx_def known_simps)
  have order: "unixNano (nov1 10 0) < unixNano (nov1 11 0)"
    by (simp add: nov1_def hour_def)
  have cfg: "EnableAt one_window = [''0 10 * * *'']" "DisableAt one_window = [''0 11 * * *'']"
    by (simp_all add: one_window_def)
  have half: "unixNano (nov1 10 0) < unixNano (nov1 10 30) \<and>
      unixNano (nov1 10 30) < unixNano (nov1 11 0)"
    by (simp add: nov1_def hour_def)
  have early: "unixNano (nov1 9 59) < unixNano (nov1 10 0)"
    by (simp add: nov1_def hour_def)
  from Match_boundaries [OF cfg
      daily_prev_latest [OF known_simps(2)] daily_next_earliest [OF known_simps(3)]
      found_start found_end ten_o_clock eleven_o_clock order
      no_start_until_eleven no_end_before_eleven, of "()"]
    half early before_ten
  show ?thesis by blast
qed

section \<open>The disjunction over the pairs\<close>

text \<open>
  Claim C3. For a matcher with as many end rules as start rules and every instant, the
  result of \<open>Match\<close>, which returns at the first matching pair, is the disjunction of
  the results of all pairs, each one evaluated; and a matcher holding the same pairs in
  another order returns the same result.
\<close>

theorem Match_is_disjunction:
  assumes "length (DisableAt cm) = length (EnableAt cm)"
  shows "fst (Match g now r cm) = Inr (matches_any g now cm) \<and>
    (\<forall>cm' r'. length (DisableAt cm') = length (EnableAt cm') \<and>
        mset (zip (EnableAt cm') (DisableAt cm')) = mset (zip (EnableAt cm) (DisableAt cm)) \<longrightarrow>
        fst (Match g now r' cm') = fst (Match g now r cm))"
proof (intro conjI allI impI)
  show "fst (Match g now r cm) = Inr (matches_any g now cm)"
    using assms by (rule Match_matches_any)
next
  fix cm' :: CronMatcher and r' :: 'b
  assume h: "length (DisableAt cm') = length (EnableAt cm') \<and>
        mset (zip (EnableAt cm') (DisableAt cm')) = mset (zip (EnableAt cm) (DisableAt cm))"
  then have "set (zip (EnableAt cm') (DisableAt cm')) = set (zip (EnableAt cm) (DisableAt cm))"
    by (metis set_mset_mset)
  then have "matches_any g now cm' = matches_any g now cm"
    by (simp add: matches_any_zip)
  with h assms show "fst (Match g now r' cm') = fst (Match g now r cm)"
    by (simp add: Match_matches_any)
qed

theorem Match_is_disjunction_witness:
  "fst (Match daily_gronx (nov1 15 30) () two_windows) = Inr True \<and>
   fst (Match daily_gronx (nov1 15 30) () swapped_windows) = Inr True"
proof -
  have len: "length (DisableAt two_windows) = length (EnableAt two_windows)"
    by (simp add: two_windows_def)
  have any: "matches_any daily_gronx (nov1 15 30) two_windows"
    by (simp add: matches_any_def two_windows_def pair_matches_def daily_defs)
  have perm: "length (DisableAt swapped_windows) = length (EnableAt swapped_windows) \<and>
      mset (zip (EnableAt swapped_windows) (DisableAt swapped_windows)) =
      mset (zip (EnableAt two_windows) (DisableAt two_windows))"
    by (simp add: two_windows_def swapped_windows_def)
  from Match_is_disjunction [OF len, of daily_gronx "nov1 15 30" "()"] any perm
  show ?thesis by fastforce
qed

section \<open>A pair that cannot be evaluated\<close>

text \<open>
  Claim C4. For a matcher with as many end rules as start rules, \<open>Match\<close> always returns
  a boolean, and that boolean is true exactly when some pair has both of its ticks
  computed and passes the test of the window: a pair for which the previous start tick
  or the next end tick cannot be computed counts as not matching, so a query on a
  matcher all of whose pairs fail returns false. Such a pair ends its iteration in
  \<^verbatim>\<open>continue\<close>, and the query returns what it returns for the matcher without that
  pair; whenever some pair matches, the result is true, whichever other pairs fail.
\<close>

theorem Match_skips_failing_pair:
  assumes "length (DisableAt cm) = length (EnableAt cm)"
  shows "fst (Match g now r cm) =
      Inr (\<exists>k<length (EnableAt cm). \<exists>lastStart nextEnd.
             PrevTickBefore g (EnableAt cm ! k) now True = Inr lastStart \<and>
             NextTickAfter g (DisableAt cm ! k) lastStart False = Inr nextEnd \<and>
             in_range now lastStart nextEnd) \<and>
    ((\<forall>j<length (EnableAt cm). pair_fails g now (EnableAt cm ! j) (DisableAt cm ! j)) \<longrightarrow>
        fst (Match g now r cm) = Inr False) \<and>
    (\<exists>b. fst (Match g now r cm) = Inr b) \<and>
    (\<forall>j<length (EnableAt cm).
        pair_fails g now (EnableAt cm ! j) (DisableAt cm ! j) \<longrightarrow>
        fst (Match_iter g now j cm) = Continue \<and>
        fst (Match g now r cm) = fst (Match g now r (without_pair j cm))) \<and>
    (\<forall>k<length (EnableAt cm).
        pair_matches g now (EnableAt cm ! k) (DisableAt cm ! k) \<longrightarrow>
        fst (Match g now r cm) = Inr True)"
proof (intro conjI allI impI)
  show "fst (Match g now r cm) =
      Inr (\<exists>k<length (EnableAt cm). \<exists>lastStart nextEnd.
             PrevTickBefore g (EnableAt cm ! k) now True = Inr lastStart \<and>
             NextTickAfter g (DisableAt cm ! k) lastStart False = Inr nextEnd \<and>
             in_range now lastStart nextEnd)"
    using Match_pairs [OF assms, of g now r] by (simp add: pair_matches_found)
next
  assume "\<forall>j<length (EnableAt cm). pair_fails g now (EnableAt cm ! j) (DisableAt cm ! j)"
  then have "\<not> (\<exists>i<length (EnableAt cm).
      pair_matches g now (EnableAt cm ! i) (DisableAt cm ! i))"
    by (auto dest: pair_fails_no_match)
  with Match_pairs [OF assms, of g now r] show "fst (Match g now r cm) = Inr False"
    by simp
next
  show "\<exists>b. fst (Match g now r cm) = Inr b"
    using Match_matches_any [OF assms, of g now r] by simp
next
  fix j
  assume j: "j < length (EnableAt cm)"
    and fails: "pair_fails g now (EnableAt cm ! j) (DisableAt cm ! j)"
  from fails have no: "\<not> pair_matches g now (EnableAt cm ! j) (DisableAt cm ! j)"
    by (rule pair_fails_no_match)
  from j assms have "j < length (DisableAt cm)" by simp
  from Match_iter_pair [OF this, of g now] no
  show "fst (Match_iter g now j cm) = Continue" by simp
  from matches_any_without [OF assms j no]
    Match_matches_any [OF assms, of g now r]
    Match_matches_any [OF without_pair_lengths [OF assms], of g now r j]
  show "fst (Match g now r cm) = fst (Match g now r (without_pair j cm))" by simp
next
  fix k
  assume "k < length (EnableAt cm)"
    and "pair_matches g now (EnableAt cm ! k) (DisableAt cm ! k)"
  with Match_pairs [OF assms, of g now r]
  show "fst (Match g now r cm) = Inr True" by auto
qed

theorem Match_skips_failing_pair_witness:
  "pair_fails daily_gronx (nov1 10 30) (EnableAt broken_first ! 0) (DisableAt broken_first ! 0) \<and>
   fst (Match_iter daily_gronx (nov1 10 30) 0 broken_first) = Continue \<and>
   fst (Match daily_gronx (nov1 10 30) () broken_first) = Inr True \<and>
   fst (Match daily_gronx (nov1 12 30) () broken_first) = Inr False \<and>
   fst (Match daily_gronx (nov1 10 30) () only_broken) = Inr False"
proof -
  have len: "length (DisableAt broken_first) = length (EnableAt broken_first)"
    and len1: "length (DisableAt only_broken) = length (EnableAt only_broken)"
    by (simp_all add: broken_first_def only_broken_def)
  have j: "0 < length (EnableAt broken_first)" and k: "1 < length (EnableAt broken_first)"
    by (simp_all add: broken_first_def)
  have fails: "pair_fails daily_gronx (nov1 10 30)
      (EnableAt broken_first ! 0) (DisableAt broken_first ! 0)"
    by (simp add: broken_first_def pair_fails_def daily_defs)
  have good: "pair_matches daily_gronx (nov1 10 30)
      (EnableAt broken_first ! 1) (DisableAt broken_first ! 1)"
    by (simp add: broken_first_def pair_matches_def daily_defs)
  have all_fail: "\<forall>j<length (EnableAt only_broken).
      pair_fails daily_gronx (nov1 10 30) (EnableAt only_broken ! j) (DisableAt only_broken ! j)"
    by (simp add: only_broken_def pair_fails_def daily_defs)
  have outside: "\<not> (\<exists>k<length (EnableAt broken_first). \<exists>lastStart nextEnd.
      PrevTickBefore daily_gronx (EnableAt broken_first ! k) (nov1 12 30) True = Inr lastStart \<and>
      NextTickAfter daily_gronx (DisableAt broken_first ! k) lastStart False = Inr nextEnd \<and>
      in_range (nov1 12 30) lastStart nextEnd)"
    by (auto simp add: broken_first_def less_Suc_eq nth_Cons' daily_defs)
  from Match_skips_failing_pair [OF len, of daily_gronx "nov1 12 30" "()"] outside
  have late: "fst (Match daily_gronx (nov1 12 30) () broken_first) = Inr False"
    by simp
  from Match_skips_failing_pair [OF len1, of daily_gronx "nov1 10 30" "()"] all_fail
  have alone: "fst (Match daily_gronx (nov1 10 30) () only_broken) = Inr False"
    by blast
  from Match_skips_failing_pair [OF len, of daily_gronx "nov1 10 30" "()"] j k fails good
    late alone
  show ?thesis by blast
qed

section \<open>The test as an interval\<close>

text \<open>
  Claim C5. Whenever \<open>nextEnd\<close> is strictly after \<open>lastStart\<close>, the test of the code
  (\<open>now\<close> equals \<open>lastStart\<close>, or is after \<open>lastStart\<close> and before \<open>nextEnd\<close>) is the
  closed-open interval test: \<open>lastStart \<le> now < nextEnd\<close>.
\<close>

theorem in_range_closed_open:
  assumes "After nextEnd lastStart"
  shows "in_range now lastStart nextEnd =
      (unixNano lastStart \<le> unixNano now \<and> unixNano now < unixNano nextEnd)"
  using assms by (auto simp add: in_range_def Equal_def After_def Before_def)

theorem in_range_closed_open_witness:
  "After (nov1 11 0) (nov1 10 0) \<and> in_range (nov1 10 0) (nov1 10 0) (nov1 11 0) \<and>
   \<not> in_range (nov1 11 0) (nov1 10 0) (nov1 11 0)"
proof -
  have h: "After (nov1 11 0) (nov1 10 0)"
    by (simp add: After_def nov1_def hour_def)
  from in_range_closed_open [OF h, of "nov1 10 0"] in_range_closed_open [OF h, of "nov1 11 0"] h
  show ?thesis by (simp add: nov1_def hour_def)
qed

section \<open>Empty rules\<close>

text \<open>
  The module has no check for an empty rule and no error of its own for one. The pair
  with the empty start rule and the end rule \<^verbatim>\<open>0 9 * * *\<close> passes \<open>Provision\<close>;
  \<open>Validate\<close> rejects it with the error it returns for any expression the library finds
  invalid, here as for the start rule \<^verbatim>\<open>daily\<close>: invalid \<^verbatim>\<open>enable_at\<close> cron format at
  index 0.
\<close>

theorem missing_rule_counterexample:
  "fst (Provision [] empty_start) = None \<and>
   Validate daily_gronx empty_start = Some (InvalidEnableAt 0 []) \<and>
   Validate daily_gronx misspelt_start = Some (InvalidEnableAt 0 ''daily'') \<and>
   error_message (InvalidEnableAt 0 []) =
     ''invalid enable_at cron format at index 0: '' @ [apostrophe, apostrophe]"
  by (simp add: Provision_def Validate_def empty_start_def misspelt_start_def
      daily_gronx_def known_def quoted_def itoa.simps digit_def)

text \<open>
  Claim C6, as amended. A configuration with an empty start or end rule, at least one
  pair and as many end rules as start rules passes \<open>Provision\<close>. When the library's
  validity check rejects the empty string, \<open>Validate\<close> fails on it with the error for
  an invalid cron format, which names an index and the slice (\<^verbatim>\<open>enable_at\<close> or
  \<^verbatim>\<open>disable_at\<close>) of a rule the library rejects.
\<close>

theorem empty_rule_is_invalid_rule:
  assumes "\<not> IsValid g []" and "EnableAt cm \<noteq> []"
    and "length (EnableAt cm) = length (DisableAt cm)"
    and "[] \<in> set (EnableAt cm) \<union> set (DisableAt cm)"
  shows "fst (Provision lg cm) = None \<and>
    (\<exists>i rule. \<not> IsValid g rule \<and>
        (Validate g cm = Some (InvalidEnableAt i rule) \<or>
         Validate g cm = Some (InvalidDisableAt i rule)))"
proof
  from assms(2,3) show "fst (Provision lg cm) = None"
    by (auto simp add: Provision_def Let_def)
next
  show "\<exists>i rule. \<not> IsValid g rule \<and>
        (Validate g cm = Some (InvalidEnableAt i rule) \<or>
         Validate g cm = Some (InvalidDisableAt i rule))"
  proof (cases "first_invalid (IsValid g) 0 (EnableAt cm)")
    case (Some p)
    obtain i x where p: "p = (i, x)" by (cases p)
    from Some p have "Validate g cm = Some (InvalidEnableAt i x)" by (simp add: Validate_def)
    with first_invalid_0 [of "IsValid g" "EnableAt cm" i x] Some p show ?thesis by blast
  next
    case None
    then have "\<forall>x\<in>set (EnableAt cm). IsValid g x" by (simp add: first_invalid_None)
    with assms(1,4) have "\<not> (\<forall>x\<in>set (DisableAt cm). IsValid g x)" by auto
    then obtain i x where d: "first_invalid (IsValid g) 0 (DisableAt cm) = Some (i, x)"
      by (cases "first_invalid (IsValid g) 0 (DisableAt cm)") (auto simp add: first_invalid_None)
    with None have "Validate g cm = Some (InvalidDisableAt i x)" by (simp add: Validate_def)
    with first_invalid_0 [OF d] show ?thesis by blast
  qed
qed

theorem empty_rule_is_invalid_rule_witness:
  "\<not> IsValid daily_gronx [] \<and> [] \<in> set (EnableAt empty_start) \<and>
   fst (Provision [] empty_start) = None \<and>
   (\<exists>i rule. \<not> IsValid daily_gronx rule \<and>
      (Validate daily_gronx empty_start = Some (InvalidEnableAt i rule) \<or>
       Validate daily_gronx empty_start = Some (InvalidDisableAt i rule)))"
proof -
  have invalid: "\<not> IsValid daily_gronx []"
    by (simp add: daily_gronx_def known_simps)
  have some: "EnableAt empty_start \<noteq> []"
    and same: "length (EnableAt empty_start) = length (DisableAt empty_start)"
    and empty: "[] \<in> set (EnableAt empty_start) \<union> set (DisableAt empty_start)"
    by (simp_all add: empty_start_def)
  from empty_rule_is_invalid_rule [OF invalid some same empty, of "[]"] invalid
  show ?thesis by (simp add: empty_start_def)
qed

section \<open>The checks of Provision\<close>

text \<open>
  Claim C7. \<open>Provision\<close> fails with the error that both slices must contain at least one
  cron expression when either slice is empty, and with the error that they must have
  the same number of expressions when both are non-empty and their lengths differ. It
  succeeds exactly when there is at least one start rule and as many end rules as start
  rules, so a matcher that has passed it is neither empty nor mismatched.
\<close>

theorem Provision_checks_counts:
  "(EnableAt cm = [] \<or> DisableAt cm = [] \<longrightarrow> fst (Provision lg cm) = Some NoCronExpression) \<and>
   (EnableAt cm \<noteq> [] \<and> DisableAt cm \<noteq> [] \<and> length (EnableAt cm) \<noteq> length (DisableAt cm) \<longrightarrow>
      fst (Provision lg cm) = Some CountMismatch) \<and>
   ((fst (Provision lg cm) = None) =
      (EnableAt cm \<noteq> [] \<and> length (EnableAt cm) = length (DisableAt cm)))"
  by (auto simp add: Provision_def Let_def)

theorem Provision_checks_counts_witness:
  "fst (Provision [] unconfigured) = Some NoCronExpression \<and>
   fst (Provision [] unpaired) = Some CountMismatch \<and>
   fst (Provision [] two_windows) = None"
proof -
  have "EnableAt unconfigured = [] \<or> DisableAt unconfigured = []"
    by (simp add: unconfigured_def)
  moreover have "EnableAt unpaired \<noteq> [] \<and> DisableAt unpaired \<noteq> [] \<and>
      length (EnableAt unpaired) \<noteq> length (DisableAt unpaired)"
    by (simp add: unpaired_def)
  moreover have "EnableAt two_windows \<noteq> [] \<and>
      length (EnableAt two_windows) = length (DisableAt two_windows)"
    by (simp add: two_windows_def)
  ultimately show ?thesis
    using Provision_checks_counts [of unconfigured "[]"]
      Provision_checks_counts [of unpaired "[]"]
      Provision_checks_counts [of two_windows "[]"]
    by blast
qed

section \<open>The errors of Validate\<close>

text \<open>
  Claim C8. \<open>Validate\<close> returns no error if and only if the library's validity check
  accepts every start rule and every end rule. An error that it returns carries the
  index of a rule that the check rejects, the rule itself, and whether it stands in
  \<^verbatim>\<open>enable_at\<close> (a start rule) or in \<^verbatim>\<open>disable_at\<close> (an end rule).
\<close>

theorem Validate_reports_invalid_rule:
  "(Validate g cm = None) =
      (\<forall>rule\<in>set (EnableAt cm) \<union> set (DisableAt cm). IsValid g rule) \<and>
   (\<forall>err. Validate g cm = Some err \<longrightarrow>
      (\<exists>i<length (EnableAt cm).
          \<not> IsValid g (EnableAt cm ! i) \<and> err = InvalidEnableAt i (EnableAt cm ! i)) \<or>
      (\<exists>i<length (DisableAt cm).
          \<not> IsValid g (DisableAt cm ! i) \<and> err = InvalidDisableAt i (DisableAt cm ! i)))"
proof (intro conjI allI impI)
  show "(Validate g cm = None) =
      (\<forall>rule\<in>set (EnableAt cm) \<union> set (DisableAt cm). IsValid g rule)"
  proof -
    have "(Validate g cm = None) =
        (first_invalid (IsValid g) 0 (EnableAt cm) = None \<and>
         first_invalid (IsValid g) 0 (DisableAt cm) = None)"
      by (simp add: Validate_def split: option.splits prod.splits)
    then show ?thesis
      by (auto simp add: first_invalid_None)
  qed
next
  fix err
  assume v: "Validate g cm = Some err"
  show "(\<exists>i<length (EnableAt cm).
          \<not> IsValid g (EnableAt cm ! i) \<and> err = InvalidEnableAt i (EnableAt cm ! i)) \<or>
      (\<exists>i<length (DisableAt cm).
          \<not> IsValid g (DisableAt cm ! i) \<and> err = InvalidDisableAt i (DisableAt cm ! i))"
  proof (cases "first_invalid (IsValid g) 0 (EnableAt cm)")
    case (Some p)
    obtain i x where p: "p = (i, x)" by (cases p)
    from Some p v have "err = InvalidEnableAt i x" by (simp add: Validate_def)
    with first_invalid_0 [of "IsValid g" "EnableAt cm" i x] Some p show ?thesis by auto
  next
    case None
    with v obtain i x where d: "first_invalid (IsValid g) 0 (DisableAt cm) = Some (i, x)"
      and "err = InvalidDisableAt i x"
      by (auto simp add: Validate_def split: option.splits)
    with first_invalid_0 [OF d] show ?thesis by auto
  qed
qed

theorem Validate_reports_invalid_rule_witness:
  "Validate daily_gronx two_windows = None \<and>
   Validate daily_gronx bad_second_end = Some (InvalidDisableAt 1 ''4pm'') \<and>
   \<not> IsValid daily_gronx (DisableAt bad_second_end ! 1)"
proof -
  have valid: "\<forall>rule\<in>set (EnableAt two_windows) \<union> set (DisableAt two_windows).
      IsValid daily_gronx rule"
    by (simp add: two_windows_def daily_gronx_def known_simps)
  have bad: "Validate daily_gronx bad_second_end = Some (InvalidDisableAt 1 ''4pm'')"
    by (simp add: Validate_def bad_second_end_def daily_gronx_def known_def)
  from Validate_reports_invalid_rule [of daily_gronx two_windows]
    Validate_reports_invalid_rule [of daily_gronx bad_second_end] valid bad
  show ?thesis by (auto simp add: bad_second_end_def)
qed

section \<open>A query changes nothing but the log\<close>

text \<open>
  Claim C9. For a fixed configuration and a fixed instant the result of \<open>Match\<close> is
  fixed: it is the same for every request and whatever has been logged before, and the
  two slices of rules are after the query what they were before it.
\<close>

theorem Match_deterministic:
  "fst (Match g now r1 cm) = fst (Match g now r2 (cm\<lparr>logger := lg\<rparr>)) \<and>
   EnableAt (snd (Match g now r1 cm)) = EnableAt cm \<and>
   DisableAt (snd (Match g now r1 cm)) = DisableAt cm"
proof -
  have "fst (Match_loop g now [0..<length (EnableAt cm)] (cm\<lparr>logger := lg\<rparr>)) =
      fst (Match_loop g now [0..<length (EnableAt cm)] cm)"
    by (rule Match_loop_control) simp_all
  then show ?thesis
    by (simp add: Match_def Match_loop_slices)
qed

section \<open>Parsing keeps the slices paired\<close>

text \<open>
  Claim C10. A block with exactly two arguments appends the first to \<^verbatim>\<open>EnableAt\<close> and
  the second to \<^verbatim>\<open>DisableAt\<close>, and the loop goes on; any other block ends the call
  with the dispenser's error and appends nothing. Whenever \<open>UnmarshalCaddyfile\<close>
  returns, with an error or without, it has appended as many start rules as end rules.
  So a parse that starts from slices of equal length ends with slices of equal length,
  and \<open>Provision\<close> does not report a count mismatch for the result. The call does return
  for every dispenser whose cursor moves on with each block, as over a finite stream of
  tokens.
\<close>

theorem UnmarshalCaddyfile_keeps_pairs:
  "(\<forall>d1 args d2. Next D d = (True, d1) \<and> RemainingArgs D d1 = (args, d2) \<longrightarrow>
      UnmarshalCaddyfile D d cm =
        (if length args = 2 then
           UnmarshalCaddyfile D d2
             (cm\<lparr>EnableAt := EnableAt cm @ [args ! 0], DisableAt := DisableAt cm @ [args ! 1]\<rparr>)
         else Some (Some (DispenserErr (Err D d2 two_arguments)), d2, cm))) \<and>
   (\<forall>err d' cm'. UnmarshalCaddyfile D d cm = Some (err, d', cm') \<longrightarrow>
      pairs_appended cm cm' \<and>
      (length (EnableAt cm) = length (DisableAt cm) \<longrightarrow>
         length (EnableAt cm') = length (DisableAt cm') \<and>
         fst (Provision lg cm') \<noteq> Some CountMismatch)) \<and>
   ((\<forall>d d1 args d2. Next D d = (True, d1) \<and> RemainingArgs D d1 = (args, d2) \<longrightarrow>
        (m d2 :: nat) < m d) \<longrightarrow>
      (\<exists>y. UnmarshalCaddyfile D d cm = Some y))"
proof (intro conjI allI impI)
  fix d1 args d2
  assume "Next D d = (True, d1) \<and> RemainingArgs D d1 = (args, d2)"
  then show "UnmarshalCaddyfile D d cm =
        (if length args = 2 then
           UnmarshalCaddyfile D d2
             (cm\<lparr>EnableAt := EnableAt cm @ [args ! 0], DisableAt := DisableAt cm @ [args ! 1]\<rparr>)
         else Some (Some (DispenserErr (Err D d2 two_arguments)), d2, cm))"
    by (subst UnmarshalCaddyfile.simps) simp
next
  fix err d' cm'
  assume "UnmarshalCaddyfile D d cm = Some (err, d', cm')"
  from UnmarshalCaddyfile_appends [OF this] show app: "pairs_appended cm cm'" by simp
  assume "length (EnableAt cm) = length (DisableAt cm)"
  with app show len: "length (EnableAt cm') = length (DisableAt cm')"
    by (auto simp add: pairs_appended_def)
  then show "fst (Provision lg cm') \<noteq> Some CountMismatch"
    by (simp add: Provision_def Let_def)
next
  assume "\<forall>d d1 args d2. Next D d = (True, d1) \<and> RemainingArgs D d1 = (args, d2) \<longrightarrow> m d2 < m d"
  then show "\<exists>y. UnmarshalCaddyfile D d cm = Some y"
    by (rule UnmarshalCaddyfile_returns)
qed

theorem UnmarshalCaddyfile_keeps_pairs_witness:
  "UnmarshalCaddyfile lines_dispenser ([], cron_block) unconfigured =
     Some (None, ([], []), two_windows) \<and>
   pairs_appended unconfigured two_windows \<and>
   length (EnableAt two_windows) = length (DisableAt two_windows) \<and>
   fst (Provision [] two_windows) \<noteq> Some CountMismatch \<and>
   UnmarshalCaddyfile lines_dispenser ([], one_argument) unconfigured =
     Some (Some (DispenserErr two_arguments), ([], []), unconfigured)"
proof -
  have same: "length (EnableAt unconfigured) = length (DisableAt unconfigured)"
    by (simp add: unconfigured_def)
  have block: "Next lines_dispenser ([], one_argument) = (True, ([''0 10 * * *''], [])) \<and>
      RemainingArgs lines_dispenser ([''0 10 * * *''], []) = ([''0 10 * * *''], ([], []))"
    by (simp add: lines_dispenser_def one_argument_def)
  from UnmarshalCaddyfile_keeps_pairs
      [of lines_dispenser "([], one_argument)" unconfigured "[]" lines_left] block
  have "UnmarshalCaddyfile lines_dispenser ([], one_argument) unconfigured =
      Some (Some (DispenserErr (Err lines_dispenser ([], []) two_arguments)), ([], []),
        unconfigured)"
    by fastforce
  then have refused: "UnmarshalCaddyfile lines_dispenser ([], one_argument) unconfigured =
      Some (Some (DispenserErr two_arguments), ([], []), unconfigured)"
    by (simp add: lines_dispenser_def)
  from UnmarshalCaddyfile_keeps_pairs
      [of lines_dispenser "([], cron_block)" unconfigured "[]" lines_left]
    cron_block_parsed same lines_dispenser_consumes refused
  show ?thesis by blast
qed

end
